theory Spec2Isabelle
  imports
    Main
    "HOL-Library.AList"
    "HOL-Library.Sublist"
    "HOL-Library.Char_ord"
    "HOL-Library.List_Lexorder"
begin

section \<open>JSON values as the handlers see them\<close>

text \<open>
  The REST handlers of \<^verbatim>\<open>intkey_cli.py\<close> work on the Python values that
  \<^verbatim>\<open>request.json()\<close> and \<^verbatim>\<open>client.show\<close> hand them: \<^verbatim>\<open>None\<close>, booleans,
  integers, strings, lists and dicts. A dict is an association list read with \<^const>\<open>map_of\<close>
  and written with \<^const>\<open>AList.update\<close> (an existing key keeps its place, a new key goes to
  the end, as in a Python dict). A string is the list of its characters. Floating point
  numbers are not modelled.
\<close>

datatype json =
    JNull
  | JBool bool
  | JNum int
  | JStr string
  | JArr "json list"
  | JObj "(string \<times> json) list"

text \<open>The exceptions the handlers can meet. None of them is caught, except
  \<^verbatim>\<open>IntkeyClientException\<close> where the source says so.\<close>

datatype error = IntkeyClientException | KeyError | TypeError | AttributeError

text \<open>
  Python's \<^verbatim>\<open>==\<close> on these values is structural, except that \<^verbatim>\<open>True == 1\<close> and
  \<^verbatim>\<open>False == 0\<close>, and that two dicts are equal when they have the same keys with equal
  values, whatever the insertion order. \<open>norm\<close> computes a canonical form for that
  equality.
\<close>

fun norm :: "json \<Rightarrow> json" where
  "norm JNull = JNull"
| "norm (JBool b) = JNum (if b then 1 else 0)"
| "norm (JNum n) = JNum n"
| "norm (JStr s) = JStr s"
| "norm (JArr xs) = JArr (map norm xs)"
| "norm (JObj kvs) =
     JObj (sort_key fst (AList.clearjunk (map (\<lambda>kv. (fst kv, norm (snd kv))) kvs)))"

definition py_eq :: "json \<Rightarrow> json \<Rightarrow> bool" where
  "py_eq a b = (norm a = norm b)"

text \<open>\<^verbatim>\<open>x in c\<close>: membership in a list, key membership in a dict (an unhashable
  \<^verbatim>\<open>x\<close> raises), substring test in a string (a non-string \<^verbatim>\<open>x\<close> raises); anything
  else is not iterable.\<close>

fun py_in :: "json \<Rightarrow> json \<Rightarrow> error + bool" where
  "py_in x (JArr ys) = Inr (\<exists>y \<in> set ys. py_eq y x)"
| "py_in (JArr _) (JObj kvs) = Inl TypeError"
| "py_in (JObj _) (JObj kvs) = Inl TypeError"
| "py_in (JStr k) (JObj kvs) = Inr (k \<in> fst ` set kvs)"
| "py_in _ (JObj kvs) = Inr False"
| "py_in (JStr t) (JStr s) = Inr (sublist t s)"
| "py_in _ (JStr s) = Inl TypeError"
| "py_in _ _ = Inl TypeError"

text \<open>\<^verbatim>\<open>c[k]\<close> and \<^verbatim>\<open>c[k] = v\<close> with a string \<^verbatim>\<open>k\<close>: only a dict accepts a string
  subscript.\<close>

fun py_getitem :: "json \<Rightarrow> string \<Rightarrow> error + json" where
  "py_getitem (JObj kvs) k = (case map_of kvs k of None \<Rightarrow> Inl KeyError | Some v \<Rightarrow> Inr v)"
| "py_getitem _ k = Inl TypeError"

fun py_setitem :: "json \<Rightarrow> string \<Rightarrow> json \<Rightarrow> error + json" where
  "py_setitem (JObj kvs) k v = Inr (JObj (AList.update k v kvs))"
| "py_setitem _ k v = Inl TypeError"

text \<open>\<^verbatim>\<open>len(c)\<close> and \<^verbatim>\<open>for x in c\<close>.\<close>

fun py_len :: "json \<Rightarrow> error + nat" where
  "py_len (JArr xs) = Inr (length xs)"
| "py_len (JObj kvs) = Inr (length (AList.clearjunk kvs))"
| "py_len (JStr s) = Inr (length s)"
| "py_len _ = Inl TypeError"

fun py_iter :: "json \<Rightarrow> error + json list" where
  "py_iter (JArr xs) = Inr xs"
| "py_iter (JObj kvs) = Inr (map (\<lambda>kv. JStr (fst kv)) (AList.clearjunk kvs))"
| "py_iter (JStr s) = Inr (map (\<lambda>c. JStr [c]) s)"
| "py_iter _ = Inl TypeError"

text \<open>\<^verbatim>\<open>c.append(x)\<close> and \<^verbatim>\<open>c.remove(x)\<close> exist on lists only; \<^verbatim>\<open>remove\<close> deletes
  the first element equal to \<^verbatim>\<open>x\<close> (the handlers call it only after \<^verbatim>\<open>x in c\<close>).\<close>

fun py_append :: "json \<Rightarrow> json \<Rightarrow> error + json" where
  "py_append (JArr xs) x = Inr (JArr (xs @ [x]))"
| "py_append _ x = Inl AttributeError"

fun remove_first :: "json \<Rightarrow> json list \<Rightarrow> json list" where
  "remove_first x [] = []"
| "remove_first x (y # ys) = (if py_eq y x then ys else y # remove_first x ys)"

fun py_remove :: "json \<Rightarrow> json \<Rightarrow> error + json" where
  "py_remove (JArr xs) x = Inr (JArr (remove_first x xs))"
| "py_remove _ x = Inl AttributeError"

text \<open>\<^verbatim>\<open>prefix + s\<close> with a string prefix: a non-string operand raises.\<close>

fun py_concat :: "string \<Rightarrow> json \<Rightarrow> error + string" where
  "py_concat p (JStr s) = Inr (p @ s)"
| "py_concat p _ = Inl TypeError"

section \<open>The ledger client\<close>

text \<open>
  Modelled from the spec: the class \<^verbatim>\<open>IntkeyClient\<close> (\<^verbatim>\<open>intkey_client.py\<close>) is not
  among the sources. The specification gives its contract: \<^verbatim>\<open>show(name)\<close> returns the value
  stored under \<^verbatim>\<open>name\<close> and fails when the key was never written (the handlers catch that
  failure as \<^verbatim>\<open>IntkeyClientException\<close>), \<^verbatim>\<open>set(name, value, wait)\<close> stores the value under
  the string \<^verbatim>\<open>name\<close>. The ledger is a flat map from keys to values; a write is visible to
  the next read, and a name that is not a string is refused.
\<close>

type_synonym store = "string \<Rightarrow> json option"

definition client_show :: "store \<Rightarrow> string \<Rightarrow> error + json" where
  "client_show s name = (case s name of None \<Rightarrow> Inl IntkeyClientException | Some v \<Rightarrow> Inr v)"

definition client_set :: "store \<Rightarrow> string \<Rightarrow> json \<Rightarrow> store" where
  "client_set s name v = s(name \<mapsto> v)"

definition get_value :: "store \<Rightarrow> string \<Rightarrow> error + json" where
  "get_value s pubkey = client_show s pubkey"

text \<open>Two call sites pass a name taken from a request body or from a stored list, which
  need not be a string.\<close>

fun get_value_any :: "store \<Rightarrow> json \<Rightarrow> error + json" where
  "get_value_any s (JStr pubkey) = get_value s pubkey"
| "get_value_any s _ = Inl TypeError"

fun client_set_any :: "store \<Rightarrow> json \<Rightarrow> json \<Rightarrow> error + store" where
  "client_set_any s (JStr name) v = Inr (client_set s name v)"
| "client_set_any s _ v = Inl TypeError"

definition WILL_PREFIX :: string where
  "WILL_PREFIX = ''WILL_''"

definition WILL_LIST_PREFIX :: string where
  "WILL_LIST_PREFIX = ''WILL_LIST_''"

definition KEY_NEED_REVIEW :: string where
  "KEY_NEED_REVIEW = ''KEY_NEED_REVIEW''"

section \<open>Responses\<close>

text \<open>\<^verbatim>\<open>_wrap_response(request, data, status)\<close>: the HTTP status and the payload put under
  \<^verbatim>\<open>data\<close> (none when \<^verbatim>\<open>data\<close> is \<^verbatim>\<open>None\<close>). A handler returns its response, or the
  exception that left it, together with the store as its writes left it.\<close>

type_synonym response = "nat \<times> json option"

type_synonym outcome = "(error + response) \<times> store"

definition wrap_response :: "json \<Rightarrow> nat \<Rightarrow> response" where
  "wrap_response data status = (status, if data = JNull then None else Some data)"

definition error_data :: "string \<Rightarrow> json" where
  "error_data msg = JObj [(''success'', JBool False), (''error'', JStr msg)]"

definition processing :: json where
  "processing = JObj [(''processing'', JBool True)]"

section \<open>Registry: \<^verbatim>\<open>register_pubkey\<close>, \<^verbatim>\<open>show_user\<close>, \<^verbatim>\<open>list_need_approve\<close>, \<^verbatim>\<open>approve_public_key\<close>\<close>

text \<open>\<^verbatim>\<open>if 'status' not in body: body['status'] = 'need_review'\<close>\<close>

definition default_status :: "json \<Rightarrow> error + json" where
  "default_status body =
     (case py_in (JStr ''status'') body of
        Inl e \<Rightarrow> Inl e
      | Inr True \<Rightarrow> Inr body
      | Inr False \<Rightarrow> py_setitem body ''status'' (JStr ''need_review''))"

text \<open>The pending list as \<^verbatim>\<open>register_pubkey\<close> fetches it: a missing key is caught, the empty
  list is written in its place, and \<^verbatim>\<open>None\<close> becomes the empty list.\<close>

definition fetch_pending :: "store \<Rightarrow> (error + json) \<times> store" where
  "fetch_pending s =
     (case get_value s KEY_NEED_REVIEW of
        Inl e \<Rightarrow>
          (if e = IntkeyClientException
           then (Inr (JArr []), client_set s KEY_NEED_REVIEW (JArr []))
           else (Inl e, s))
      | Inr v \<Rightarrow> (Inr (if v = JNull then JArr [] else v), s))"

text \<open>\<^verbatim>\<open>if pubkey not in list_pending: list_pending.append(pubkey)\<close>\<close>

definition add_pending :: "json \<Rightarrow> json \<Rightarrow> error + json" where
  "add_pending pubkey list_pending =
     (case py_in pubkey list_pending of
        Inl e \<Rightarrow> Inl e
      | Inr True \<Rightarrow> Inr list_pending
      | Inr False \<Rightarrow> py_append list_pending pubkey)"

definition register_pubkey :: "string \<Rightarrow> json \<Rightarrow> store \<Rightarrow> outcome" where
  "register_pubkey method body0 s =
     (if method \<noteq> ''POST'' then (Inr (wrap_response JNull 200), s)
      else case py_in (JStr ''public_key'') body0 of
        Inl e \<Rightarrow> (Inl e, s)
      | Inr False \<Rightarrow> (Inr (wrap_response (error_data ''Missing public_key'') 400), s)
      | Inr True \<Rightarrow>
         (case default_status body0 of
            Inl e \<Rightarrow> (Inl e, s)
          | Inr body \<Rightarrow>
             (case py_getitem body ''public_key'' of
                Inl e \<Rightarrow> (Inl e, s)
              | Inr pubkey \<Rightarrow>
                 (case fetch_pending s of
                    (Inl e, s1) \<Rightarrow> (Inl e, s1)
                  | (Inr list_pending0, s1) \<Rightarrow>
                     (case add_pending pubkey list_pending0 of
                        Inl e \<Rightarrow> (Inl e, s1)
                      | Inr list_pending \<Rightarrow>
                         (let s2 = client_set s1 KEY_NEED_REVIEW list_pending in
                          case client_set_any s2 pubkey body of
                            Inl e \<Rightarrow> (Inl e, s2)
                          | Inr s3 \<Rightarrow> (Inr (wrap_response processing 200), s3)))))))"

definition show_user :: "string \<Rightarrow> string option \<Rightarrow> store \<Rightarrow> outcome" where
  "show_user method pubkey_q s =
     (if method \<noteq> ''GET'' then (Inr (wrap_response JNull 200), s)
      else case pubkey_q of
        None \<Rightarrow> (Inr (wrap_response (error_data ''Missing public_key'') 400), s)
      | Some pubkey \<Rightarrow>
         (case get_value s pubkey of
            Inl e \<Rightarrow> (Inl e, s)
          | Inr body \<Rightarrow> (Inr (wrap_response body 200), s)))"

text \<open>The loop of \<^verbatim>\<open>list_need_approve\<close>: \<^verbatim>\<open>get_value\<close> is called for each entry with no
  \<^verbatim>\<open>try\<close> around it.\<close>

fun collect_users :: "store \<Rightarrow> json list \<Rightarrow> json list \<Rightarrow> error + json list" where
  "collect_users s [] users = Inr users"
| "collect_users s (pubkey # rest) users =
     (case get_value_any s pubkey of
        Inl e \<Rightarrow> Inl e
      | Inr user \<Rightarrow> collect_users s rest (users @ [user]))"

definition list_need_approve :: "string \<Rightarrow> store \<Rightarrow> outcome" where
  "list_need_approve method s =
     (if method \<noteq> ''GET'' then (Inr (wrap_response JNull 200), s)
      else case get_value s KEY_NEED_REVIEW of
        Inl e \<Rightarrow> (Inl e, s)
      | Inr pending_list \<Rightarrow>
         (case py_iter pending_list of
            Inl e \<Rightarrow> (Inl e, s)
          | Inr pubkeys \<Rightarrow>
             (case collect_users s pubkeys [] of
                Inl e \<Rightarrow> (Inl e, s)
              | Inr users \<Rightarrow> (Inr (wrap_response (JArr users) 200), s))))"

text \<open>\<^verbatim>\<open>if pubkey in pending_list: pending_list.remove(pubkey)\<close>\<close>

definition drop_pending :: "json \<Rightarrow> json \<Rightarrow> error + json" where
  "drop_pending pubkey pending_list =
     (case py_in pubkey pending_list of
        Inl e \<Rightarrow> Inl e
      | Inr True \<Rightarrow> py_remove pending_list pubkey
      | Inr False \<Rightarrow> Inr pending_list)"

definition approve_public_key :: "string \<Rightarrow> string option \<Rightarrow> store \<Rightarrow> outcome" where
  "approve_public_key method pubkey_q s =
     (if method \<noteq> ''GET'' then (Inr (wrap_response JNull 200), s)
      else case pubkey_q of
        None \<Rightarrow> (Inr (wrap_response (error_data ''Missing public_key'') 400), s)
      | Some pubkey \<Rightarrow>
         (case get_value s pubkey of
            Inl e \<Rightarrow> (Inl e, s)
          | Inr body0 \<Rightarrow>
             (case py_setitem body0 ''status'' (JStr ''approved'') of
                Inl e \<Rightarrow> (Inl e, s)
              | Inr body \<Rightarrow>
                 (let s1 = client_set s pubkey body in
                  case get_value s1 KEY_NEED_REVIEW of
                    Inl e \<Rightarrow> (Inl e, s1)
                  | Inr pending_list0 \<Rightarrow>
                     (case drop_pending (JStr pubkey) pending_list0 of
                        Inl e \<Rightarrow> (Inl e, s1)
                      | Inr pending_list \<Rightarrow>
                         (Inr (wrap_response body 200),
                          client_set s1 KEY_NEED_REVIEW pending_list))))))"

section \<open>WillLedger: \<^verbatim>\<open>create_will\<close>, \<^verbatim>\<open>show_will\<close>, \<^verbatim>\<open>witness_sign\<close>\<close>

text \<open>\<^verbatim>\<open>'witnesses' not in body or len(body['witnesses']) == 0\<close>\<close>

definition no_witnesses :: "json \<Rightarrow> error + bool" where
  "no_witnesses body =
     (case py_in (JStr ''witnesses'') body of
        Inl e \<Rightarrow> Inl e
      | Inr False \<Rightarrow> Inr True
      | Inr True \<Rightarrow>
         (case py_getitem body ''witnesses'' of
            Inl e \<Rightarrow> Inl e
          | Inr ws \<Rightarrow> (case py_len ws of Inl e \<Rightarrow> Inl e | Inr n \<Rightarrow> Inr (n = 0))))"

text \<open>The loop over the witnesses of a new will. Each round reads the witness's index
  (\<^verbatim>\<open>[]\<close> when the read fails), and appends and writes the testator when it is not in it.
  The writes of the rounds before an exception stay in the store.\<close>

fun index_witnesses :: "json \<Rightarrow> json list \<Rightarrow> store \<Rightarrow> error option \<times> store" where
  "index_witnesses pubkey [] s = (None, s)"
| "index_witnesses pubkey (wn # rest) s =
     (case py_getitem wn ''public_key'' of
        Inl e \<Rightarrow> (Some e, s)
      | Inr wn_pubkey \<Rightarrow>
         (case py_concat WILL_LIST_PREFIX wn_pubkey of
            Inl e \<Rightarrow> (Some e, s)
          | Inr key \<Rightarrow>
             (let will_list =
                (case get_value s key of
                   Inl e \<Rightarrow> JArr []
                 | Inr v \<Rightarrow> v)
              in case py_in pubkey will_list of
                   Inl e \<Rightarrow> (Some e, s)
                 | Inr True \<Rightarrow> index_witnesses pubkey rest s
                 | Inr False \<Rightarrow>
                    (case py_append will_list pubkey of
                       Inl e \<Rightarrow> (Some e, s)
                     | Inr will_list' \<Rightarrow>
                        index_witnesses pubkey rest (client_set s key will_list')))))"

text \<open>\<^verbatim>\<open>client.set(WILL_PREFIX + pubkey, body, ...)\<close> and the response that follows it.\<close>

definition persist_will :: "json \<Rightarrow> json \<Rightarrow> store \<Rightarrow> outcome" where
  "persist_will pubkey body s =
     (case py_concat WILL_PREFIX pubkey of
        Inl e \<Rightarrow> (Inl e, s)
      | Inr key \<Rightarrow> (Inr (wrap_response processing 200), client_set s key body))"

definition create_will :: "string \<Rightarrow> json \<Rightarrow> store \<Rightarrow> outcome" where
  "create_will method body0 s =
     (if method \<noteq> ''POST'' then (Inr (wrap_response JNull 200), s)
      else case py_in (JStr ''public_key'') body0 of
        Inl e \<Rightarrow> (Inl e, s)
      | Inr False \<Rightarrow> (Inr (wrap_response (error_data ''Missing public_key'') 400), s)
      | Inr True \<Rightarrow>
         (case py_getitem body0 ''public_key'' of
            Inl e \<Rightarrow> (Inl e, s)
          | Inr pubkey \<Rightarrow>
             (case no_witnesses body0 of
                Inl e \<Rightarrow> (Inl e, s)
              | Inr True \<Rightarrow>
                 (case py_setitem body0 ''status'' (JStr ''valid'') of
                    Inl e \<Rightarrow> (Inl e, s)
                  | Inr body \<Rightarrow> persist_will pubkey body s)
              | Inr False \<Rightarrow>
                 (case py_getitem body0 ''witnesses'' of
                    Inl e \<Rightarrow> (Inl e, s)
                  | Inr ws \<Rightarrow>
                     (case py_iter ws of
                        Inl e \<Rightarrow> (Inl e, s)
                      | Inr wns \<Rightarrow>
                         (case index_witnesses pubkey wns s of
                            (Some e, s1) \<Rightarrow> (Inl e, s1)
                          | (None, s1) \<Rightarrow> persist_will pubkey body0 s1))))))"

definition show_will :: "string \<Rightarrow> string option \<Rightarrow> store \<Rightarrow> outcome" where
  "show_will method pubkey_q s =
     (if method \<noteq> ''GET'' then (Inr (wrap_response JNull 200), s)
      else case pubkey_q of
        None \<Rightarrow> (Inr (wrap_response (error_data ''Missing public_key'') 400), s)
      | Some pubkey \<Rightarrow>
         (case get_value s (WILL_PREFIX @ pubkey) of
            Inl e \<Rightarrow> (Inl e, s)
          | Inr body \<Rightarrow> (Inr (wrap_response body 200), s)))"

text \<open>\<^verbatim>\<open>'status' in wn and wn["status"] == 'signed'\<close>\<close>

definition is_signed :: "json \<Rightarrow> error + bool" where
  "is_signed wn =
     (case py_in (JStr ''status'') wn of
        Inl e \<Rightarrow> Inl e
      | Inr False \<Rightarrow> Inr False
      | Inr True \<Rightarrow>
         (case py_getitem wn ''status'' of
            Inl e \<Rightarrow> Inl e
          | Inr v \<Rightarrow> Inr (py_eq v (JStr ''signed''))))"

text \<open>The loop of \<^verbatim>\<open>witness_sign\<close>, with \<^verbatim>\<open>found_witness\<close> and \<^verbatim>\<open>sign_count\<close> as
  accumulators. It returns the entries as the loop leaves them (the matching ones now carry
  \<^verbatim>\<open>status = 'signed'\<close>) and the two variables.\<close>

fun sign_loop :: "string \<Rightarrow> json list \<Rightarrow> bool \<Rightarrow> nat \<Rightarrow> error + (json list \<times> bool \<times> nat)" where
  "sign_loop witness [] found_witness sign_count = Inr ([], found_witness, sign_count)"
| "sign_loop witness (wn # rest) found_witness sign_count =
     (case is_signed wn of
        Inl e \<Rightarrow> Inl e
      | Inr signed \<Rightarrow>
         (let sign_count1 = (if signed then sign_count + 1 else sign_count) in
          case py_getitem wn ''public_key'' of
            Inl e \<Rightarrow> Inl e
          | Inr pk \<Rightarrow>
             (if py_eq pk (JStr witness) then
                (case py_setitem wn ''status'' (JStr ''signed'') of
                   Inl e \<Rightarrow> Inl e
                 | Inr wn' \<Rightarrow>
                    (case sign_loop witness rest True (sign_count1 + 1) of
                       Inl e \<Rightarrow> Inl e
                     | Inr (wns, f, c) \<Rightarrow> Inr (wn' # wns, f, c)))
              else
                (case sign_loop witness rest found_witness sign_count1 of
                   Inl e \<Rightarrow> Inl e
                 | Inr (wns, f, c) \<Rightarrow> Inr (wn # wns, f, c)))))"

text \<open>The loop changes the entries of \<^verbatim>\<open>body["witnesses"]\<close> in place when that value is a
  list; iterating over a dict or a string yields fresh strings, and the value stays as it
  was.\<close>

definition mutated_witnesses :: "json \<Rightarrow> json list \<Rightarrow> json" where
  "mutated_witnesses ws wns = (case ws of JArr _ \<Rightarrow> JArr wns | _ \<Rightarrow> ws)"

text \<open>\<^verbatim>\<open>if sign_count == len(body['witnesses']): body['status'] = 'valid'\<close>\<close>

definition mark_valid :: "nat \<Rightarrow> json \<Rightarrow> error + json" where
  "mark_valid sign_count body =
     (case py_getitem body ''witnesses'' of
        Inl e \<Rightarrow> Inl e
      | Inr ws \<Rightarrow>
         (case py_len ws of
            Inl e \<Rightarrow> Inl e
          | Inr n \<Rightarrow>
             (if sign_count = n then py_setitem body ''status'' (JStr ''valid'')
              else Inr body)))"

definition witness_sign :: "string \<Rightarrow> string option \<Rightarrow> string option \<Rightarrow> store \<Rightarrow> outcome" where
  "witness_sign method pubkey_q witness_q s =
     (if method \<noteq> ''GET'' then (Inr (wrap_response JNull 200), s)
      else case (pubkey_q, witness_q) of
        (Some pubkey, Some witness) \<Rightarrow>
         (case get_value s (WILL_PREFIX @ pubkey) of
            Inl e \<Rightarrow> (Inl e, s)
          | Inr body0 \<Rightarrow>
             (case py_getitem body0 ''witnesses'' of
                Inl e \<Rightarrow> (Inl e, s)
              | Inr ws \<Rightarrow>
                 (case py_iter ws of
                    Inl e \<Rightarrow> (Inl e, s)
                  | Inr wns0 \<Rightarrow>
                     (case sign_loop witness wns0 False 0 of
                        Inl e \<Rightarrow> (Inl e, s)
                      | Inr (wns, found_witness, sign_count) \<Rightarrow>
                         (if \<not> found_witness then
                            (Inr (wrap_response
                                   (error_data ''Witness is not found in this will'') 400), s)
                          else
                            (case py_setitem body0 ''witnesses'' (mutated_witnesses ws wns) of
                               Inl e \<Rightarrow> (Inl e, s)
                             | Inr body1 \<Rightarrow>
                                (case mark_valid sign_count body1 of
                                   Inl e \<Rightarrow> (Inl e, s)
                                 | Inr body \<Rightarrow>
                                    (Inr (wrap_response body 200),
                                     client_set s (WILL_PREFIX @ pubkey) body))))))))
      | _ \<Rightarrow>
         (Inr (wrap_response (error_data ''Missing public_key and/or witness param'') 400), s))"

text \<open>The loop of \<^verbatim>\<open>show_will_list\<close>: here each round sits in a \<^verbatim>\<open>try\<close> whose bare
  \<^verbatim>\<open>except\<close> passes, so an entry whose will or testator cannot be read is left out and the
  loop goes on.\<close>

fun collect_wills :: "store \<Rightarrow> json list \<Rightarrow> json list \<Rightarrow> json list" where
  "collect_wills s [] will_list = will_list"
| "collect_wills s (will_pubkey # rest) will_list =
     (case py_concat WILL_PREFIX will_pubkey of
        Inl e \<Rightarrow> collect_wills s rest will_list
      | Inr key \<Rightarrow>
         (case get_value s key of
            Inl e \<Rightarrow> collect_wills s rest will_list
          | Inr will \<Rightarrow>
             (case py_getitem will ''public_key'' of
                Inl e \<Rightarrow> collect_wills s rest will_list
              | Inr testator_key \<Rightarrow>
                 (case get_value_any s testator_key of
                    Inl e \<Rightarrow> collect_wills s rest will_list
                  | Inr testator \<Rightarrow>
                     (case py_setitem will ''testator'' testator of
                        Inl e \<Rightarrow> collect_wills s rest will_list
                      | Inr will' \<Rightarrow> collect_wills s rest (will_list @ [will']))))))"

definition show_will_list :: "string \<Rightarrow> string option \<Rightarrow> store \<Rightarrow> outcome" where
  "show_will_list method pubkey_q s =
     (if method \<noteq> ''GET'' then (Inr (wrap_response JNull 200), s)
      else case pubkey_q of
        None \<Rightarrow> (Inr (wrap_response (error_data ''Missing public_key'') 400), s)
      | Some pubkey \<Rightarrow>
         (let will_list_pubkey =
            (case get_value s (WILL_LIST_PREFIX @ pubkey) of
               Inl e \<Rightarrow> JArr []
             | Inr v \<Rightarrow> v)
          in case py_iter will_list_pubkey of
               Inl e \<Rightarrow> (Inl e, s)
             | Inr keys \<Rightarrow> (Inr (wrap_response (JArr (collect_wills s keys [])) 200), s)))"

section \<open>The routes and sequences of requests\<close>

text \<open>The routes that \<^verbatim>\<open>start_rest_api\<close> registers, each for any method, with the method and
  the parameters the handler reads. (\<^verbatim>\<open>/generate_key\<close> does not touch the ledger and is
  left out.) The server handles one request after the other; a request that ends in an
  exception leaves behind the writes it had made.\<close>

datatype request =
    Register string json
  | User string "string option"
  | AdminList string
  | AdminApprove string "string option"
  | WillCreate string json
  | Will string "string option"
  | WillList string "string option"
  | WillWitnessSign string "string option" "string option"

fun serve :: "request \<Rightarrow> store \<Rightarrow> outcome" where
  "serve (Register method body) s = register_pubkey method body s"
| "serve (User method pubkey) s = show_user method pubkey s"
| "serve (AdminList method) s = list_need_approve method s"
| "serve (AdminApprove method pubkey) s = approve_public_key method pubkey s"
| "serve (WillCreate method body) s = create_will method body s"
| "serve (Will method pubkey) s = show_will method pubkey s"
| "serve (WillList method pubkey) s = show_will_list method pubkey s"
| "serve (WillWitnessSign method pubkey witness) s = witness_sign method pubkey witness s"

fun run :: "request list \<Rightarrow> store \<Rightarrow> store" where
  "run [] s = s"
| "run (r # rs) s = run rs (snd (serve r s))"

text \<open>The invariant of the pending list: when the value under \<^verbatim>\<open>KEY_NEED_REVIEW\<close> is a
  list, no two of its entries are equal (for Python's \<^verbatim>\<open>==\<close>).\<close>

definition no_duplicates :: "json list \<Rightarrow> bool" where
  "no_duplicates xs = distinct (map norm xs)"

fun list_ok :: "json \<Rightarrow> bool" where
  "list_ok (JArr xs) = no_duplicates xs"
| "list_ok _ = True"

definition pending_ok :: "store \<Rightarrow> bool" where
  "pending_ok s =
     (case s KEY_NEED_REVIEW of
        None \<Rightarrow> True
      | Some v \<Rightarrow> list_ok v)"

text \<open>The witness indexes that \<^verbatim>\<open>create_will\<close> can use for an entry of the witness list:
  the entry names a string \<^verbatim>\<open>public_key\<close>, and the index of that witness is absent or a
  list.\<close>

fun is_list :: "json \<Rightarrow> bool" where
  "is_list (JArr xs) = True"
| "is_list _ = False"

definition index_ready :: "store \<Rightarrow> json \<Rightarrow> bool" where
  "index_ready s wn =
     (case py_getitem wn ''public_key'' of
        Inr (JStr w) \<Rightarrow>
          (case s (WILL_LIST_PREFIX @ w) of
             None \<Rightarrow> True
           | Some v \<Rightarrow> is_list v)
      | _ \<Rightarrow> False)"

text \<open>Two ledgers that hold the same values under every key but \<open>k\<close>.\<close>

definition agree_off :: "string \<Rightarrow> store \<Rightarrow> store \<Rightarrow> bool" where
  "agree_off k s' s = (\<forall>a. a \<noteq> k \<longrightarrow> s' a = s a)"

section \<open>Documents used in the examples\<close>

definition alice_will_bob :: json where
  "alice_will_bob =
     JObj [(''public_key'', JStr ''alice''),
           (''witnesses'', JArr [JObj [(''public_key'', JStr ''bob'')]])]"

definition alice_will_bob_carol :: json where
  "alice_will_bob_carol =
     JObj [(''public_key'', JStr ''alice''),
           (''witnesses'', JArr [JObj [(''public_key'', JStr ''bob'')],
                                  JObj [(''public_key'', JStr ''carol'')]])]"

definition alice_will_none :: json where
  "alice_will_none = JObj [(''public_key'', JStr ''alice'')]"

definition alice_profile :: json where
  "alice_profile = JObj [(''public_key'', JStr ''alice''), (''name'', JStr ''Alice'')]"

section \<open>Basic facts about the Python operations\<close>

lemma py_eq_refl [simp]: "py_eq x x"
  by (simp add: py_eq_def)

lemma norm_eq_JStr [simp]: "(norm x = JStr s) = (x = JStr s)"
  by (cases x) auto

lemma py_eq_JStr [simp]: "py_eq x (JStr s) = (x = JStr s)"
  by (simp add: py_eq_def)

lemma py_eq_JStr' [simp]: "py_eq (JStr s) x = (x = JStr s)"
  by (auto simp add: py_eq_def dest: sym)

lemma py_getitem_InrD:
  "py_getitem body k = Inr v \<Longrightarrow> \<exists>kvs. body = JObj kvs \<and> map_of kvs k = Some v"
  by (cases body) (auto split: option.splits)

lemma map_of_in_fst: "map_of kvs k = Some v \<Longrightarrow> k \<in> fst ` set kvs"
  by (metis domI dom_map_of_conv_image_fst)

lemma map_of_notin_fst: "map_of kvs k = None \<Longrightarrow> k \<notin> fst ` set kvs"
  by (simp add: map_of_eq_None_iff)

section \<open>Creating a will\<close>

text \<open>
  Claim C7. For every testator \<open>t\<close> and every request body that names \<open>t\<close> as
  \<^verbatim>\<open>public_key\<close> and has no \<^verbatim>\<open>witnesses\<close> member or the empty list, \<^verbatim>\<open>create_will\<close>
  answers 200 from any store, and the will that \<^verbatim>\<open>show_will\<close> then returns for \<open>t\<close> has
  \<^verbatim>\<open>status = 'valid'\<close>.
\<close>

theorem create_will_no_witnesses_valid:
  assumes pk: "py_getitem body ''public_key'' = Inr (JStr t)"
      and ws: "py_getitem body ''witnesses'' = Inl KeyError
               \<or> py_getitem body ''witnesses'' = Inr (JArr [])"
  shows "\<exists>s' will. create_will ''POST'' body s = (Inr (wrap_response processing 200), s')
           \<and> show_will ''GET'' (Some t) s' = (Inr (200, Some will), s')
           \<and> py_getitem will ''status'' = Inr (JStr ''valid'')"
proof -
  from pk obtain kvs where body: "body = JObj kvs"
    and k: "map_of kvs ''public_key'' = Some (JStr t)"
    by (auto dest: py_getitem_InrD)
  have inpk: "''public_key'' \<in> fst ` set kvs"
    using k by (rule map_of_in_fst)
  have nw: "no_witnesses body = Inr True"
    using ws
  proof
    assume "py_getitem body ''witnesses'' = Inl KeyError"
    then have "map_of kvs ''witnesses'' = None"
      by (simp add: body split: option.splits)
    then have "''witnesses'' \<notin> fst ` set kvs"
      by (rule map_of_notin_fst)
    then show ?thesis
      by (simp add: no_witnesses_def body)
  next
    assume a: "py_getitem body ''witnesses'' = Inr (JArr [])"
    then have "map_of kvs ''witnesses'' = Some (JArr [])"
      by (simp add: body split: option.splits)
    then have "''witnesses'' \<in> fst ` set kvs"
      by (rule map_of_in_fst)
    then show ?thesis
      using a by (simp add: no_witnesses_def body)
  qed
  let ?will = "JObj (AList.update ''status'' (JStr ''valid'') kvs)"
  let ?s' = "client_set s (WILL_PREFIX @ t) ?will"
  have 1: "create_will ''POST'' body s = (Inr (wrap_response processing 200), ?s')"
    using inpk k nw by (simp add: create_will_def body persist_will_def)
  have 2: "show_will ''GET'' (Some t) ?s' = (Inr (200, Some ?will), ?s')"
    by (simp add: show_will_def get_value_def client_show_def client_set_def wrap_response_def)
  have 3: "py_getitem ?will ''status'' = Inr (JStr ''valid'')"
    by (simp add: update_conv')
  from 1 2 3 show ?thesis by blast
qed

theorem create_will_no_witnesses_valid_witness:
  "py_getitem (JObj [(''public_key'', JStr ''alice'')]) ''public_key'' = Inr (JStr ''alice'')
   \<and> (py_getitem (JObj [(''public_key'', JStr ''alice'')]) ''witnesses'' = Inl KeyError
       \<or> py_getitem (JObj [(''public_key'', JStr ''alice'')]) ''witnesses'' = Inr (JArr []))
   \<and> (\<exists>s' will. create_will ''POST'' (JObj [(''public_key'', JStr ''alice'')]) Map.empty
                    = (Inr (wrap_response processing 200), s')
           \<and> show_will ''GET'' (Some ''alice'') s' = (Inr (200, Some will), s')
           \<and> py_getitem will ''status'' = Inr (JStr ''valid''))"
proof -
  have a: "py_getitem (JObj [(''public_key'', JStr ''alice'')]) ''public_key''
           = Inr (JStr ''alice'')"
    by simp
  have b: "py_getitem (JObj [(''public_key'', JStr ''alice'')]) ''witnesses'' = Inl KeyError
       \<or> py_getitem (JObj [(''public_key'', JStr ''alice'')]) ''witnesses'' = Inr (JArr [])"
    by simp
  from a b create_will_no_witnesses_valid [OF a b, of Map.empty] show ?thesis
    by blast
qed

lemma is_listD: "is_list v \<Longrightarrow> \<exists>xs. v = JArr xs"
  by (cases v) simp_all

lemma index_readyD:
  assumes "index_ready s wn"
  shows "\<exists>w. py_getitem wn ''public_key'' = Inr (JStr w)
           \<and> (s (WILL_LIST_PREFIX @ w) = None \<or> (\<exists>xs. s (WILL_LIST_PREFIX @ w) = Some (JArr xs)))"
proof (cases "py_getitem wn ''public_key''")
  case (Inl e)
  then show ?thesis using assms by (simp add: index_ready_def)
next
  case (Inr v)
  show ?thesis
  proof (cases v)
    case (JStr w)
    then show ?thesis
      using assms Inr by (cases "s (WILL_LIST_PREFIX @ w)") (auto simp add: index_ready_def dest: is_listD)
  qed (use assms Inr in \<open>simp_all add: index_ready_def\<close>)
qed

lemma index_ready_set:
  assumes "index_ready s wn"
  shows "index_ready (client_set s (WILL_LIST_PREFIX @ w) (JArr xs)) wn"
proof -
  from index_readyD [OF assms] obtain w' where
    "py_getitem wn ''public_key'' = Inr (JStr w')"
    "s (WILL_LIST_PREFIX @ w') = None \<or> (\<exists>xs. s (WILL_LIST_PREFIX @ w') = Some (JArr xs))"
    by blast
  then show ?thesis
    by (auto simp add: index_ready_def client_set_def)
qed

lemma index_witnesses_total:
  assumes "\<forall>wn \<in> set wns. index_ready s wn"
  shows "\<exists>s1. index_witnesses pubkey wns s = (None, s1)"
  using assms
proof (induction wns arbitrary: s)
  case Nil
  then show ?case by simp
next
  case (Cons wn wns)
  from Cons.prems have "index_ready s wn" by simp
  then obtain w where w: "py_getitem wn ''public_key'' = Inr (JStr w)"
    and idx: "s (WILL_LIST_PREFIX @ w) = None \<or> (\<exists>xs. s (WILL_LIST_PREFIX @ w) = Some (JArr xs))"
    using index_readyD by blast
  from idx obtain xs where xs: "(case get_value s (WILL_LIST_PREFIX @ w) of Inl e \<Rightarrow> JArr [] | Inr v \<Rightarrow> v) = JArr xs"
    by (auto simp add: get_value_def client_show_def)
  show ?case
  proof (cases "\<exists>y \<in> set xs. py_eq y pubkey")
    case True
    from Cons.IH [of s] Cons.prems obtain s1 where "index_witnesses pubkey wns s = (None, s1)"
      by auto
    then show ?thesis using w xs True by simp
  next
    case False
    let ?s = "client_set s (WILL_LIST_PREFIX @ w) (JArr (xs @ [pubkey]))"
    have "\<forall>wn \<in> set wns. index_ready ?s wn"
      using Cons.prems by (simp add: index_ready_set)
    from Cons.IH [OF this] obtain s1 where "index_witnesses pubkey wns ?s = (None, s1)"
      by auto
    then show ?thesis using w xs False by simp
  qed
qed

lemma persist_will_show:
  "persist_will (JStr t) body s = (Inr (wrap_response processing 200), client_set s (WILL_PREFIX @ t) body)"
  by (simp add: persist_will_def)

lemma show_will_after_set:
  "body \<noteq> JNull \<Longrightarrow> show_will ''GET'' (Some t) (client_set s (WILL_PREFIX @ t) body)
     = (Inr (200, Some body), client_set s (WILL_PREFIX @ t) body)"
  by (simp add: show_will_def get_value_def client_show_def client_set_def wrap_response_def)

text \<open>
  Claim C3 as stated: after a \<^verbatim>\<open>create_will\<close> with a non-empty witness list the stored will has
  \<^verbatim>\<open>status = 'pending'\<close>. The handler never writes that status: after the request
  \<^verbatim>\<open>{"public_key": "alice", "witnesses": [{"public_key": "bob"}]}\<close> on an empty ledger,
  \<^verbatim>\<open>show_will\<close> returns the request body, and reading its \<^verbatim>\<open>status\<close> raises \<^verbatim>\<open>KeyError\<close>.
\<close>

theorem create_will_status_not_pending:
  "fst (show_will ''GET'' (Some ''alice'') (run [WillCreate ''POST'' alice_will_bob] Map.empty))
     = Inr (200, Some alice_will_bob)
   \<and> py_getitem alice_will_bob ''status'' = Inl KeyError"
  by code_simp

text \<open>
  Claim C3, amended. For every request body that names the testator \<open>t\<close> and carries a
  non-empty list of witnesses, each with a string \<^verbatim>\<open>public_key\<close> whose index is absent or a
  list, \<^verbatim>\<open>create_will\<close> answers 200 and the will that \<^verbatim>\<open>show_will\<close> then returns for \<open>t\<close>
  is the request body itself: its \<^verbatim>\<open>status\<close> and the entries of \<^verbatim>\<open>witnesses\<close> are what the
  request carried, and the handler adds no \<^verbatim>\<open>status\<close> of its own.
\<close>

theorem create_will_persists_request_body:
  assumes pk: "py_getitem body ''public_key'' = Inr (JStr t)"
      and ws: "py_getitem body ''witnesses'' = Inr (JArr wns)"
      and ne: "wns \<noteq> []"
      and idx: "\<forall>wn \<in> set wns. index_ready s wn"
  shows "\<exists>s'. create_will ''POST'' body s = (Inr (wrap_response processing 200), s')
           \<and> show_will ''GET'' (Some t) s' = (Inr (200, Some body), s')"
proof -
  from pk obtain kvs where body: "body = JObj kvs"
    and k: "map_of kvs ''public_key'' = Some (JStr t)"
    by (auto dest: py_getitem_InrD)
  have inpk: "''public_key'' \<in> fst ` set kvs"
    using k by (rule map_of_in_fst)
  from ws have "map_of kvs ''witnesses'' = Some (JArr wns)"
    by (simp add: body split: option.splits)
  then have "''witnesses'' \<in> fst ` set kvs"
    by (rule map_of_in_fst)
  then have nw: "no_witnesses body = Inr False"
    using ws ne by (simp add: no_witnesses_def body)
  obtain s1 where loop: "index_witnesses (JStr t) wns s = (None, s1)"
    using index_witnesses_total [OF idx] by blast
  have "create_will ''POST'' body s
          = (Inr (wrap_response processing 200), client_set s1 (WILL_PREFIX @ t) body)"
    using inpk k nw ws loop by (simp add: create_will_def body persist_will_show)
  moreover have "show_will ''GET'' (Some t) (client_set s1 (WILL_PREFIX @ t) body)
          = (Inr (200, Some body), client_set s1 (WILL_PREFIX @ t) body)"
    by (rule show_will_after_set) (simp add: body)
  ultimately show ?thesis by blast
qed

theorem create_will_persists_request_body_witness:
  "py_getitem alice_will_bob ''public_key'' = Inr (JStr ''alice'')
   \<and> py_getitem alice_will_bob ''witnesses'' = Inr (JArr [JObj [(''public_key'', JStr ''bob'')]])
   \<and> [JObj [(''public_key'', JStr ''bob'')]] \<noteq> []
   \<and> index_ready Map.empty (JObj [(''public_key'', JStr ''bob'')])
   \<and> (\<exists>s'. create_will ''POST'' alice_will_bob Map.empty = (Inr (wrap_response processing 200), s')
           \<and> show_will ''GET'' (Some ''alice'') s' = (Inr (200, Some alice_will_bob), s'))"
proof -
  have a: "py_getitem alice_will_bob ''public_key'' = Inr (JStr ''alice'')"
    by (simp add: alice_will_bob_def)
  have b: "py_getitem alice_will_bob ''witnesses'' = Inr (JArr [JObj [(''public_key'', JStr ''bob'')]])"
    by (simp add: alice_will_bob_def)
  have c: "[JObj [(''public_key'', JStr ''bob'')]] \<noteq> []"
    by simp
  have d: "index_ready Map.empty (JObj [(''public_key'', JStr ''bob'')])"
    by (simp add: index_ready_def)
  then have e: "\<forall>wn \<in> set [JObj [(''public_key'', JStr ''bob'')]]. index_ready Map.empty wn"
    by simp
  from a b c d create_will_persists_request_body [OF a b c e] show ?thesis
    by blast
qed

lemma create_will_stored:
  assumes pk: "py_getitem body ''public_key'' = Inr (JStr t)"
      and ok: "create_will ''POST'' body s = (Inr resp, s')"
  shows "\<exists>stored. get_value s' (WILL_PREFIX @ t) = Inr stored
           \<and> (no_witnesses body = Inr True \<and> py_setitem body ''status'' (JStr ''valid'') = Inr stored
               \<or> no_witnesses body = Inr False \<and> stored = body)"
proof -
  from pk obtain kvs where body: "body = JObj kvs"
    and k: "map_of kvs ''public_key'' = Some (JStr t)"
    by (auto dest: py_getitem_InrD)
  have inpk: "''public_key'' \<in> fst ` set kvs"
    using k by (rule map_of_in_fst)
  have get: "\<And>s v. get_value (client_set s (WILL_PREFIX @ t) v) (WILL_PREFIX @ t) = Inr v"
    by (simp add: get_value_def client_show_def client_set_def)
  show ?thesis
    using ok inpk k
    by (auto simp add: create_will_def body persist_will_show get
             split: sum.splits bool.splits prod.splits option.splits)
qed

text \<open>
  The handler reads the ledger only under \<^verbatim>\<open>WILL_LIST_\<close> keys. Unless the testator's name
  starts with \<^verbatim>\<open>LIST_\<close> (then \<^verbatim>\<open>WILL_\<close> + \<open>t\<close> is itself such a key), the response of
  \<^verbatim>\<open>create_will\<close> is the same whatever is stored for the testator.
\<close>

lemma will_key_not_index:
  assumes "\<not> prefix ''LIST_'' t"
  shows "WILL_LIST_PREFIX @ w \<noteq> WILL_PREFIX @ t"
proof
  assume "WILL_LIST_PREFIX @ w = WILL_PREFIX @ t"
  then have "t = ''LIST_'' @ w"
    by (simp add: WILL_LIST_PREFIX_def WILL_PREFIX_def)
  then show False
    using assms by simp
qed

lemma agree_off_set:
  "agree_off k s' s \<Longrightarrow> agree_off k (client_set s' key x) (client_set s key x)"
  by (simp add: agree_off_def client_set_def)

lemma index_witnesses_other_key:
  assumes key: "\<And>w. WILL_LIST_PREFIX @ w \<noteq> k"
      and agree: "agree_off k s' s"
  shows "fst (index_witnesses p wns s') = fst (index_witnesses p wns s)
         \<and> agree_off k (snd (index_witnesses p wns s')) (snd (index_witnesses p wns s))
         \<and> snd (index_witnesses p wns s') k = s' k"
  using agree
proof (induction wns arbitrary: s s')
  case Nil
  then show ?case by simp
next
  case (Cons wn wns)
  show ?case
  proof (cases "py_getitem wn ''public_key''")
    case (Inl e)
    then show ?thesis using Cons.prems by simp
  next
    case (Inr x)
    show ?thesis
    proof (cases x)
      case (JStr w)
      let ?key = "WILL_LIST_PREFIX @ w"
      have get: "get_value s' ?key = get_value s ?key"
        using key [of w] Cons.prems by (simp add: get_value_def client_show_def agree_off_def)
      define wl where "wl = (case get_value s ?key of Inl e \<Rightarrow> JArr [] | Inr v \<Rightarrow> v)"
      have step: "index_witnesses p (wn # wns) u =
          (case py_in p wl of
             Inl e \<Rightarrow> (Some e, u)
           | Inr True \<Rightarrow> index_witnesses p wns u
           | Inr False \<Rightarrow>
              (case py_append wl p of
                 Inl e \<Rightarrow> (Some e, u)
               | Inr wl' \<Rightarrow> index_witnesses p wns (client_set u ?key wl')))"
        if "get_value u ?key = get_value s ?key" for u
        using Inr JStr that unfolding wl_def by (simp add: Let_def)
      show ?thesis
      proof (cases "py_in p wl")
        case (Inl e)
        then show ?thesis
          using Cons.prems by (simp add: step [OF get] step [OF refl] del: index_witnesses.simps)
      next
        case present: (Inr b)
        show ?thesis
        proof (cases b)
          case True
          then show ?thesis
            using present Cons.IH [OF Cons.prems] by (simp add: step [OF get] step [OF refl] del: index_witnesses.simps)
        next
          case False
          show ?thesis
          proof (cases "py_append wl p")
            case (Inl e)
            then show ?thesis
              using present False Cons.prems by (simp add: step [OF get] step [OF refl] del: index_witnesses.simps)
          next
            case (Inr wl')
            have "client_set s' ?key wl' k = s' k"
              using key [of w] by (simp add: client_set_def)
            then show ?thesis
              using present False Inr Cons.IH [OF agree_off_set [OF Cons.prems], of ?key wl']
              by (simp add: step [OF get] step [OF refl] del: index_witnesses.simps)
          qed
        qed
      qed
    qed (use Inr Cons.prems in simp_all)
  qed
qed

lemma create_will_ignores_existing_will:
  assumes pk: "py_getitem body ''public_key'' = Inr (JStr t)"
      and nocoll: "\<not> prefix ''LIST_'' t"
  shows "fst (create_will ''POST'' body (s(WILL_PREFIX @ t := old)))
           = fst (create_will ''POST'' body s)"
proof -
  from pk obtain kvs where body: "body = JObj kvs"
    and k: "map_of kvs ''public_key'' = Some (JStr t)"
    by (auto dest: py_getitem_InrD)
  have inpk: "''public_key'' \<in> fst ` set kvs"
    using k by (rule map_of_in_fst)
  have ag: "agree_off (WILL_PREFIX @ t) (s(WILL_PREFIX @ t := old)) s"
    by (simp add: agree_off_def)
  have loop: "fst (index_witnesses p wns (s(WILL_PREFIX @ t := old)))
                = fst (index_witnesses p wns s)" for p wns
    using index_witnesses_other_key [OF will_key_not_index [OF nocoll] ag] by blast
  have loopD: "a = b"
    if "index_witnesses p wns (s(WILL_PREFIX @ t := old)) = (a, s1)"
      and "index_witnesses p wns s = (b, s2)" for p wns a b s1 s2
    using loop [of p wns] that by simp
  show ?thesis
    using inpk k
    by (auto simp add: create_will_def body persist_will_show dest: loopD
             split: sum.splits bool.splits prod.splits option.splits)
qed

text \<open>
  Claim C10. \<^verbatim>\<open>create_will\<close> does not look at the will already stored for the testator:
  whatever will \<open>old\<close> the ledger holds for \<open>t\<close>, a \<^verbatim>\<open>create_will\<close> for \<open>t\<close> that
  completes leaves under \<^verbatim>\<open>WILL_\<close> + \<open>t\<close> the new request body (with \<^verbatim>\<open>status = 'valid'\<close>
  set when it has no witnesses), in which nothing of \<open>old\<close> remains.
\<close>

theorem create_will_overwrites_existing:
  assumes pk: "py_getitem body ''public_key'' = Inr (JStr t)"
      and old: "get_value s (WILL_PREFIX @ t) = Inr old"
      and ok: "create_will ''POST'' body s = (Inr resp, s')"
  shows "\<exists>stored. show_will ''GET'' (Some t) s' = (Inr (200, Some stored), s')
           \<and> (no_witnesses body = Inr True
                 \<and> py_setitem body ''status'' (JStr ''valid'') = Inr stored
               \<or> no_witnesses body = Inr False \<and> stored = body)"
proof -
  from create_will_stored [OF pk ok] obtain stored where
    get: "get_value s' (WILL_PREFIX @ t) = Inr stored"
    and st: "no_witnesses body = Inr True
                 \<and> py_setitem body ''status'' (JStr ''valid'') = Inr stored
               \<or> no_witnesses body = Inr False \<and> stored = body"
    by blast
  from pk obtain kvs where "body = JObj kvs"
    by (auto dest: py_getitem_InrD)
  with st have "stored \<noteq> JNull"
    by auto
  then have "show_will ''GET'' (Some t) s' = (Inr (200, Some stored), s')"
    using get by (simp add: show_will_def wrap_response_def)
  with st show ?thesis by blast
qed

theorem create_will_overwrites_existing_witness:
  "py_getitem alice_will_bob_carol ''public_key'' = Inr (JStr ''alice'')
   \<and> get_value (run [WillCreate ''POST'' alice_will_bob,
                      WillWitnessSign ''GET'' (Some ''alice'') (Some ''bob'')] Map.empty)
        (WILL_PREFIX @ ''alice'')
       = Inr (JObj [(''public_key'', JStr ''alice''),
               (''witnesses'', JArr [JObj [(''public_key'', JStr ''bob''), (''status'', JStr ''signed'')]]),
               (''status'', JStr ''valid'')])
   \<and> fst (create_will ''POST'' alice_will_bob_carol
            (run [WillCreate ''POST'' alice_will_bob,
                  WillWitnessSign ''GET'' (Some ''alice'') (Some ''bob'')] Map.empty))
       = Inr (wrap_response processing 200)
   \<and> (\<exists>stored. show_will ''GET'' (Some ''alice'')
          (snd (create_will ''POST'' alice_will_bob_carol
            (run [WillCreate ''POST'' alice_will_bob,
                  WillWitnessSign ''GET'' (Some ''alice'') (Some ''bob'')] Map.empty)))
         = (Inr (200, Some stored),
            snd (create_will ''POST'' alice_will_bob_carol
              (run [WillCreate ''POST'' alice_will_bob,
                  WillWitnessSign ''GET'' (Some ''alice'') (Some ''bob'')] Map.empty)))
       \<and> (no_witnesses alice_will_bob_carol = Inr True
                 \<and> py_setitem alice_will_bob_carol ''status'' (JStr ''valid'') = Inr stored
               \<or> no_witnesses alice_will_bob_carol = Inr False \<and> stored = alice_will_bob_carol))"
proof -
  let ?s = "run [WillCreate ''POST'' alice_will_bob,
                 WillWitnessSign ''GET'' (Some ''alice'') (Some ''bob'')] Map.empty"
  have a: "py_getitem alice_will_bob_carol ''public_key'' = Inr (JStr ''alice'')"
    by (simp add: alice_will_bob_carol_def)
  have b: "get_value ?s (WILL_PREFIX @ ''alice'')
       = Inr (JObj [(''public_key'', JStr ''alice''),
               (''witnesses'', JArr [JObj [(''public_key'', JStr ''bob''), (''status'', JStr ''signed'')]]),
               (''status'', JStr ''valid'')])"
    by code_simp
  have c: "fst (create_will ''POST'' alice_will_bob_carol ?s) = Inr (wrap_response processing 200)"
    by code_simp
  then have d: "create_will ''POST'' alice_will_bob_carol ?s
                  = (Inr (wrap_response processing 200),
                     snd (create_will ''POST'' alice_will_bob_carol ?s))"
    by (simp add: prod_eq_iff)
  from a b c create_will_overwrites_existing [OF a b d] show ?thesis
    by blast
qed

section \<open>Signing a will\<close>

lemma is_signed_obj: "\<exists>b. is_signed (JObj kvs) = Inr b"
proof (cases "map_of kvs ''status''")
  case None
  then have "''status'' \<notin> fst ` set kvs" by (rule map_of_notin_fst)
  then have "is_signed (JObj kvs) = Inr False" by (simp add: is_signed_def)
  then show ?thesis by blast
next
  case (Some v)
  then have "''status'' \<in> fst ` set kvs" by (rule map_of_in_fst)
  then have "is_signed (JObj kvs) = Inr (v = JStr ''signed'')"
    using Some by (simp add: is_signed_def)
  then show ?thesis by blast
qed

lemma sign_loop_well_formed:
  assumes "\<forall>wn \<in> set wns. \<exists>pk. py_getitem wn ''public_key'' = Inr pk"
  shows "\<exists>wns' c. sign_loop w wns found cnt
            = Inr (wns', found \<or> (\<exists>wn \<in> set wns. py_getitem wn ''public_key'' = Inr (JStr w)), c)
          \<and> length wns' = length wns"
  using assms
proof (induction wns arbitrary: found cnt)
  case Nil
  then show ?case by simp
next
  case (Cons wn wns)
  from Cons.prems obtain pk where pk: "py_getitem wn ''public_key'' = Inr pk"
    by auto
  then obtain kvs where wn: "wn = JObj kvs"
    by (auto dest: py_getitem_InrD)
  obtain b where b: "is_signed wn = Inr b"
    using is_signed_obj wn by blast
  have rest: "\<forall>wn \<in> set wns. \<exists>pk. py_getitem wn ''public_key'' = Inr pk"
    using Cons.prems by simp
  show ?case
  proof (cases "pk = JStr w")
    case True
    from Cons.IH [OF rest, of True "(if b then cnt + 1 else cnt) + 1"]
    obtain wns' c where "sign_loop w wns True ((if b then cnt + 1 else cnt) + 1)
        = Inr (wns', True, c)" and "length wns' = length wns"
      by auto
    then show ?thesis
      using pk b True wn by (simp add: Let_def)
  next
    case False
    from Cons.IH [OF rest, of found "(if b then cnt + 1 else cnt)"]
    obtain wns' c where "sign_loop w wns found (if b then cnt + 1 else cnt)
        = Inr (wns', found \<or> (\<exists>wn \<in> set wns. py_getitem wn ''public_key'' = Inr (JStr w)), c)"
      and "length wns' = length wns"
      by auto
    then show ?thesis
      using pk b False by (simp add: Let_def)
  qed
qed

lemma sign_loop_not_listed_same:
  assumes "\<forall>wn \<in> set wns. \<exists>pk. py_getitem wn ''public_key'' = Inr pk \<and> pk \<noteq> JStr w"
  shows "\<exists>c. sign_loop w wns found cnt = Inr (wns, found, c)"
  using assms
proof (induction wns arbitrary: found cnt)
  case Nil
  then show ?case by simp
next
  case (Cons wn wns)
  from Cons.prems obtain pk where pk: "py_getitem wn ''public_key'' = Inr pk" "pk \<noteq> JStr w"
    by auto
  then obtain kvs where wn: "wn = JObj kvs"
    by (auto dest: py_getitem_InrD)
  obtain b where b: "is_signed wn = Inr b"
    using is_signed_obj wn by blast
  have rest: "\<forall>wn \<in> set wns. \<exists>pk. py_getitem wn ''public_key'' = Inr pk \<and> pk \<noteq> JStr w"
    using Cons.prems by simp
  from Cons.IH [OF rest, of found "(if b then cnt + 1 else cnt)"]
  obtain c where "sign_loop w wns found (if b then cnt + 1 else cnt) = Inr (wns, found, c)"
    by auto
  then show ?case
    using pk b by (simp add: Let_def)
qed

text \<open>
  What \<^verbatim>\<open>sign_count\<close> counts: one for every entry that is already signed, and one more for
  every entry of the signing witness, whether that entry was signed before or not.
\<close>

lemma sign_loop_count:
  assumes "\<forall>wn \<in> set wns. \<exists>pk. py_getitem wn ''public_key'' = Inr pk"
  shows "\<exists>wns' f. sign_loop w wns found cnt
           = Inr (wns', f,
                  cnt + length (filter (\<lambda>wn. is_signed wn = Inr True) wns)
                      + length (filter (\<lambda>wn. py_getitem wn ''public_key'' = Inr (JStr w)) wns))"
  using assms
proof (induction wns arbitrary: found cnt)
  case Nil
  then show ?case by simp
next
  case (Cons wn wns)
  from Cons.prems obtain pk where pk: "py_getitem wn ''public_key'' = Inr pk"
    by auto
  then obtain kvs where wn: "wn = JObj kvs"
    by (auto dest: py_getitem_InrD)
  obtain b where b: "is_signed wn = Inr b"
    using is_signed_obj wn by blast
  have rest: "\<forall>wn \<in> set wns. \<exists>pk. py_getitem wn ''public_key'' = Inr pk"
    using Cons.prems by simp
  show ?case
  proof (cases "pk = JStr w")
    case True
    from Cons.IH [OF rest, of True "(if b then cnt + 1 else cnt) + 1"]
    obtain wns' f where "sign_loop w wns True ((if b then cnt + 1 else cnt) + 1)
        = Inr (wns', f, (if b then cnt + 1 else cnt) + 1
                  + length (filter (\<lambda>wn. is_signed wn = Inr True) wns)
                  + length (filter (\<lambda>wn. py_getitem wn ''public_key'' = Inr (JStr w)) wns))"
      by blast
    then show ?thesis
      using pk b True wn by (simp add: Let_def)
  next
    case False
    from Cons.IH [OF rest, of found "(if b then cnt + 1 else cnt)"]
    obtain wns' f where "sign_loop w wns found (if b then cnt + 1 else cnt)
        = Inr (wns', f, (if b then cnt + 1 else cnt)
                  + length (filter (\<lambda>wn. is_signed wn = Inr True) wns)
                  + length (filter (\<lambda>wn. py_getitem wn ''public_key'' = Inr (JStr w)) wns))"
      by blast
    then show ?thesis
      using pk b False by (simp add: Let_def)
  qed
qed

text \<open>
  Alice's will names bob and carol. After bob's first signature the will has no
  \<^verbatim>\<open>status\<close> yet.
\<close>

lemma sign_once_leaves_status:
  "fst (show_will ''GET'' (Some ''alice'')
         (run [WillCreate ''POST'' alice_will_bob_carol,
               WillWitnessSign ''GET'' (Some ''alice'') (Some ''bob'')] Map.empty))
   = Inr (200, Some (JObj [(''public_key'', JStr ''alice''),
        (''witnesses'',
         JArr [JObj [(''public_key'', JStr ''bob''), (''status'', JStr ''signed'')],
               JObj [(''public_key'', JStr ''carol'')]])]))"
  by code_simp

text \<open>
  Claim C1 (the status becomes \<^verbatim>\<open>'valid'\<close> exactly when every witness has signed) fails on
  the code. Bob signs a second time and carol never signs: the second call counts bob's entry
  twice, \<^verbatim>\<open>sign_count\<close> reaches the length of the list, and the will is stored with
  \<^verbatim>\<open>status = 'valid'\<close>.
\<close>

theorem sign_repeated_by_one_witness_validates:
  "fst (show_will ''GET'' (Some ''alice'')
         (run [WillCreate ''POST'' alice_will_bob_carol,
               WillWitnessSign ''GET'' (Some ''alice'') (Some ''bob''),
               WillWitnessSign ''GET'' (Some ''alice'') (Some ''bob'')] Map.empty))
   = Inr (200, Some (JObj [(''public_key'', JStr ''alice''),
        (''witnesses'',
         JArr [JObj [(''public_key'', JStr ''bob''), (''status'', JStr ''signed'')],
               JObj [(''public_key'', JStr ''carol'')]]),
        (''status'', JStr ''valid'')]))"
  by code_simp

text \<open>
  Claim C2 (a second \<^verbatim>\<open>Sign\<close> by the same witness is not counted again) fails on the code.
  On a will where bob has signed and carol has not, the loop run for bob ends with
  \<^verbatim>\<open>sign_count = 2\<close>, and the handler stores and returns the will with
  \<^verbatim>\<open>status = 'valid'\<close>.
\<close>

theorem resign_counts_witness_twice:
  "sign_loop ''bob''
     [JObj [(''public_key'', JStr ''bob''), (''status'', JStr ''signed'')],
      JObj [(''public_key'', JStr ''carol'')]] False 0
   = Inr ([JObj [(''public_key'', JStr ''bob''), (''status'', JStr ''signed'')],
           JObj [(''public_key'', JStr ''carol'')]], True, 2)
   \<and> fst (witness_sign ''GET'' (Some ''alice'') (Some ''bob'')
          (Map.empty (''WILL_alice'' \<mapsto>
             JObj [(''public_key'', JStr ''alice''),
                   (''witnesses'',
                    JArr [JObj [(''public_key'', JStr ''bob''), (''status'', JStr ''signed'')],
                          JObj [(''public_key'', JStr ''carol'')]])])))
   = Inr (200, Some (JObj [(''public_key'', JStr ''alice''),
        (''witnesses'',
         JArr [JObj [(''public_key'', JStr ''bob''), (''status'', JStr ''signed'')],
               JObj [(''public_key'', JStr ''carol'')]]),
        (''status'', JStr ''valid'')]))"
  by code_simp

text \<open>
  A witness who is not listed: when the will has a list of witnesses, each an object with a
  \<^verbatim>\<open>public_key\<close> other than the caller's, \<^verbatim>\<open>witness_sign\<close> answers 400 and the ledger is as
  before. More generally the handler writes only on the path that answers 200.
\<close>

lemma sign_unknown_witness_rejected:
  assumes will: "get_value s (WILL_PREFIX @ t) = Inr will"
      and ws: "py_getitem will ''witnesses'' = Inr (JArr wns)"
      and unlisted: "\<forall>wn \<in> set wns. \<exists>pk. py_getitem wn ''public_key'' = Inr pk \<and> pk \<noteq> JStr w"
  shows "witness_sign ''GET'' (Some t) (Some w) s
           = (Inr (400, Some (error_data ''Witness is not found in this will'')), s)"
proof -
  from sign_loop_not_listed_same [OF unlisted, of False 0]
  obtain c where "sign_loop w wns False 0 = Inr (wns, False, c)"
    by blast
  then show ?thesis
    using will ws by (simp add: witness_sign_def wrap_response_def error_data_def)
qed

lemma witness_sign_writes_only_on_200:
  assumes "snd (witness_sign method pubkey witness s) \<noteq> s"
  shows "\<exists>body. fst (witness_sign method pubkey witness s) = Inr (wrap_response body 200)"
  using assms
  by (auto simp add: witness_sign_def split: sum.splits prod.splits option.splits if_splits)

text \<open>
  Claim C4 (for every existing will, an unlisted witness gets the 400 answer) fails on the
  wills that \<^verbatim>\<open>create_will\<close> stores for a request without a \<^verbatim>\<open>witnesses\<close> member: there
  \<^verbatim>\<open>body["witnesses"]\<close> raises \<^verbatim>\<open>KeyError\<close> before the loop is reached.
\<close>

theorem sign_on_will_without_witnesses_raises:
  "fst (show_will ''GET'' (Some ''alice'') (run [WillCreate ''POST'' alice_will_none] Map.empty))
     = Inr (200, Some (JObj [(''public_key'', JStr ''alice''), (''status'', JStr ''valid'')]))
   \<and> fst (witness_sign ''GET'' (Some ''alice'') (Some ''bob'')
            (run [WillCreate ''POST'' alice_will_none] Map.empty)) = Inl KeyError"
  by code_simp

text \<open>
  Claim C9. For every stored will with \<^verbatim>\<open>status = 'valid'\<close> whose witnesses are objects with a
  \<^verbatim>\<open>public_key\<close>, and every witness \<open>w\<close> listed in it, \<^verbatim>\<open>witness_sign\<close> answers 200
  and the will it stores and returns still has \<^verbatim>\<open>status = 'valid'\<close>.
\<close>

theorem valid_will_stays_valid:
  assumes will: "get_value s (WILL_PREFIX @ t) = Inr will"
      and valid: "py_getitem will ''status'' = Inr (JStr ''valid'')"
      and ws: "py_getitem will ''witnesses'' = Inr (JArr wns)"
      and wf: "\<forall>wn \<in> set wns. \<exists>pk. py_getitem wn ''public_key'' = Inr pk"
      and listed: "\<exists>wn \<in> set wns. py_getitem wn ''public_key'' = Inr (JStr w)"
  shows "\<exists>will' s'. witness_sign ''GET'' (Some t) (Some w) s = (Inr (200, Some will'), s')
           \<and> get_value s' (WILL_PREFIX @ t) = Inr will'
           \<and> py_getitem will' ''status'' = Inr (JStr ''valid'')"
proof -
  from valid obtain kvs where body: "will = JObj kvs"
    and st: "map_of kvs ''status'' = Some (JStr ''valid'')"
    by (auto dest: py_getitem_InrD)
  from sign_loop_well_formed [OF wf, of w False 0] listed
  obtain wns' c where loop: "sign_loop w wns False 0 = Inr (wns', True, c)"
    and len: "length wns' = length wns"
    by auto
  let ?body1 = "JObj (AList.update ''witnesses'' (JArr wns') kvs)"
  have st1: "map_of (AList.update ''witnesses'' (JArr wns') kvs) ''status'' = Some (JStr ''valid'')"
    using st by (simp add: update_conv')
  obtain will' where mv: "mark_valid c ?body1 = Inr (JObj will')"
    and st': "map_of will' ''status'' = Some (JStr ''valid'')"
    using st1 by (cases "c = length wns'") (auto simp add: mark_valid_def update_conv')
  have "witness_sign ''GET'' (Some t) (Some w) s
          = (Inr (200, Some (JObj will')), client_set s (WILL_PREFIX @ t) (JObj will'))"
    using will ws loop mv
    by (simp add: witness_sign_def body mutated_witnesses_def wrap_response_def)
  moreover have "get_value (client_set s (WILL_PREFIX @ t) (JObj will')) (WILL_PREFIX @ t)
                   = Inr (JObj will')"
    by (simp add: get_value_def client_show_def client_set_def)
  moreover have "py_getitem (JObj will') ''status'' = Inr (JStr ''valid'')"
    using st' by simp
  ultimately show ?thesis by blast
qed

theorem valid_will_stays_valid_witness:
  "get_value (Map.empty (''WILL_alice'' \<mapsto>
       JObj [(''public_key'', JStr ''alice''),
             (''witnesses'', JArr [JObj [(''public_key'', JStr ''bob''), (''status'', JStr ''signed'')]]),
             (''status'', JStr ''valid'')])) (WILL_PREFIX @ ''alice'')
     = Inr (JObj [(''public_key'', JStr ''alice''),
             (''witnesses'', JArr [JObj [(''public_key'', JStr ''bob''), (''status'', JStr ''signed'')]]),
             (''status'', JStr ''valid'')])
   \<and> (\<exists>will' s'. witness_sign ''GET'' (Some ''alice'') (Some ''bob'')
          (Map.empty (''WILL_alice'' \<mapsto>
             JObj [(''public_key'', JStr ''alice''),
               (''witnesses'', JArr [JObj [(''public_key'', JStr ''bob''), (''status'', JStr ''signed'')]]),
               (''status'', JStr ''valid'')])) = (Inr (200, Some will'), s')
           \<and> get_value s' (WILL_PREFIX @ ''alice'') = Inr will'
           \<and> py_getitem will' ''status'' = Inr (JStr ''valid''))"
proof -
  let ?will = "JObj [(''public_key'', JStr ''alice''),
             (''witnesses'', JArr [JObj [(''public_key'', JStr ''bob''), (''status'', JStr ''signed'')]]),
             (''status'', JStr ''valid'')]"
  let ?s = "Map.empty (''WILL_alice'' \<mapsto> ?will)"
  have a: "get_value ?s (WILL_PREFIX @ ''alice'') = Inr ?will"
    by (simp add: get_value_def client_show_def WILL_PREFIX_def)
  have b: "py_getitem ?will ''status'' = Inr (JStr ''valid'')"
    by simp
  have c: "py_getitem ?will ''witnesses''
             = Inr (JArr [JObj [(''public_key'', JStr ''bob''), (''status'', JStr ''signed'')]])"
    by simp
  have d: "\<forall>wn \<in> set [JObj [(''public_key'', JStr ''bob''), (''status'', JStr ''signed'')]].
             \<exists>pk. py_getitem wn ''public_key'' = Inr pk"
    by simp
  have e: "\<exists>wn \<in> set [JObj [(''public_key'', JStr ''bob''), (''status'', JStr ''signed'')]].
             py_getitem wn ''public_key'' = Inr (JStr ''bob'')"
    by simp
  from a valid_will_stays_valid [OF a b c d e] show ?thesis
    by blast
qed

section \<open>The pending list of the registry\<close>

lemma pending_ok_set_ok: "pending_ok s \<Longrightarrow> list_ok v \<Longrightarrow> pending_ok (client_set s k v)"
  by (simp add: pending_ok_def client_set_def)

lemma pending_ok_get: "pending_ok s \<Longrightarrow> get_value s KEY_NEED_REVIEW = Inr v \<Longrightarrow> list_ok v"
  by (auto simp add: pending_ok_def get_value_def client_show_def split: option.splits)

lemma py_setitem_list_ok: "py_setitem b k v = Inr b' \<Longrightarrow> list_ok b'"
  by (cases b) auto

lemma py_getitem_list_ok: "py_getitem b k = Inr v \<Longrightarrow> list_ok b"
  by (cases b) auto

lemma add_pending_ok:
  assumes "list_ok lp0" and "add_pending x lp0 = Inr lp"
  shows "list_ok lp"
proof (cases lp0)
  case (JArr xs)
  show ?thesis
  proof (cases "\<exists>y \<in> set xs. py_eq y x")
    case True
    then have "lp = lp0"
      using assms(2) JArr by (simp add: add_pending_def)
    then show ?thesis
      using assms(1) by simp
  next
    case False
    then have "norm x \<notin> norm ` set xs"
      by (auto simp add: py_eq_def)
    then have "no_duplicates (xs @ [x])"
      using assms(1) JArr by (simp add: no_duplicates_def)
    then show ?thesis
      using assms False JArr by (auto simp add: add_pending_def)
  qed
qed (use assms in \<open>auto simp add: add_pending_def split: sum.splits bool.splits\<close>)

lemma remove_first_subset: "set (remove_first x xs) \<subseteq> set xs"
  by (induction xs) auto

lemma remove_first_no_duplicates: "no_duplicates xs \<Longrightarrow> no_duplicates (remove_first x xs)"
proof (induction xs)
  case Nil
  then show ?case by simp
next
  case (Cons y ys)
  then show ?case
    using remove_first_subset [of x ys] by (auto simp add: no_duplicates_def)
qed

lemma drop_pending_ok:
  assumes "list_ok pl0" and "drop_pending x pl0 = Inr pl"
  shows "list_ok pl"
proof (cases pl0)
  case (JArr xs)
  then show ?thesis
    using assms by (auto simp add: drop_pending_def remove_first_no_duplicates split: bool.splits)
qed (use assms in \<open>auto simp add: drop_pending_def split: sum.splits bool.splits\<close>)

lemma fetch_pending_ok:
  assumes "pending_ok s" and "fetch_pending s = (r, s1)"
  shows "pending_ok s1 \<and> (\<forall>lp. r = Inr lp \<longrightarrow> list_ok lp)"
  using assms
  by (auto simp add: fetch_pending_def no_duplicates_def pending_ok_set_ok
           dest: pending_ok_get split: sum.splits if_splits)

lemma client_set_any_ok:
  "pending_ok s \<Longrightarrow> list_ok v \<Longrightarrow> client_set_any s k v = Inr s' \<Longrightarrow> pending_ok s'"
  by (cases k) (auto simp add: pending_ok_set_ok)

lemma register_writes_ok:
  assumes "pending_ok s1" and "list_ok lp0" and "add_pending x lp0 = Inr lp"
  shows "pending_ok (client_set s1 KEY_NEED_REVIEW lp)"
    and "py_getitem b k = Inr v \<Longrightarrow> client_set_any (client_set s1 KEY_NEED_REVIEW lp) x b = Inr s3
           \<Longrightarrow> pending_ok s3"
proof -
  have "list_ok lp"
    using assms(2,3) by (rule add_pending_ok)
  then show 1: "pending_ok (client_set s1 KEY_NEED_REVIEW lp)"
    using assms(1) by (simp add: pending_ok_set_ok)
  assume "py_getitem b k = Inr v"
  then have "list_ok b"
    by (rule py_getitem_list_ok)
  moreover assume "client_set_any (client_set s1 KEY_NEED_REVIEW lp) x b = Inr s3"
  ultimately show "pending_ok s3"
    using 1 client_set_any_ok by blast
qed

lemma register_pubkey_pending_ok:
  assumes "pending_ok s"
  shows "pending_ok (snd (register_pubkey method body s))"
proof -
  obtain r s1 where f: "fetch_pending s = (r, s1)"
    by (cases "fetch_pending s")
  from fetch_pending_ok [OF assms f] have s1: "pending_ok s1"
    and r: "\<And>lp. r = Inr lp \<Longrightarrow> list_ok lp"
    by auto
  show ?thesis
    using assms f s1 r
    by (auto simp add: register_pubkey_def Let_def split: sum.splits bool.splits
             intro: register_writes_ok)
qed

lemma approve_public_key_pending_ok:
  assumes "pending_ok s"
  shows "pending_ok (snd (approve_public_key method pubkey s))"
proof -
  have step: "pending_ok (client_set (client_set s k b') KEY_NEED_REVIEW pl)"
    if "py_setitem b ''status'' (JStr ''approved'') = Inr b'"
      and "get_value (client_set s k b') KEY_NEED_REVIEW = Inr pl0"
      and "drop_pending (JStr k) pl0 = Inr pl" for k b b' pl0 pl
  proof -
    have s1: "pending_ok (client_set s k b')"
      using assms that(1) by (simp add: pending_ok_set_ok py_setitem_list_ok)
    then have "list_ok pl0"
      using that(2) by (rule pending_ok_get)
    then have "list_ok pl"
      using that(3) by (rule drop_pending_ok)
    then show ?thesis
      using s1 by (simp add: pending_ok_set_ok)
  qed
  show ?thesis
    using assms
    by (auto simp add: approve_public_key_def Let_def pending_ok_set_ok py_setitem_list_ok step
             split: sum.splits option.splits)
qed

lemma py_concat_Inr_iff: "(py_concat p x = Inr k) = (\<exists>w. x = JStr w \<and> k = p @ w)"
  by (cases x) auto

lemma will_keys_not_pending [simp]:
  "WILL_PREFIX @ w \<noteq> KEY_NEED_REVIEW"
  "KEY_NEED_REVIEW \<noteq> WILL_PREFIX @ w"
  "WILL_LIST_PREFIX @ w \<noteq> KEY_NEED_REVIEW"
  "KEY_NEED_REVIEW \<noteq> WILL_LIST_PREFIX @ w"
  by (simp_all add: WILL_PREFIX_def WILL_LIST_PREFIX_def KEY_NEED_REVIEW_def)

lemma index_witnesses_frame:
  "snd (index_witnesses pubkey wns s) KEY_NEED_REVIEW = s KEY_NEED_REVIEW"
proof (induction wns arbitrary: s)
  case Nil
  then show ?case by simp
next
  case (Cons wn wns)
  show ?case
    by (auto simp add: Cons.IH Let_def client_set_def py_concat_Inr_iff
             split: sum.splits bool.splits)
qed

lemma create_will_frame:
  "snd (create_will method body s) KEY_NEED_REVIEW = s KEY_NEED_REVIEW"
proof -
  have loop: "s1 KEY_NEED_REVIEW = s KEY_NEED_REVIEW"
    if "index_witnesses p wns s = (e, s1)" for p wns e s1
    using index_witnesses_frame [of p wns s] that by simp
  have persist: "snd (persist_will p b s1) KEY_NEED_REVIEW = s1 KEY_NEED_REVIEW" for p b s1
    by (auto simp add: persist_will_def client_set_def py_concat_Inr_iff split: sum.splits)
  show ?thesis
    by (auto simp add: create_will_def persist dest: loop
             split: sum.splits bool.splits prod.splits option.splits)
qed

lemma witness_sign_frame:
  "snd (witness_sign method pubkey witness s) KEY_NEED_REVIEW = s KEY_NEED_REVIEW"
  by (auto simp add: witness_sign_def client_set_def
           split: sum.splits bool.splits prod.splits option.splits)

lemma create_will_pending_ok: "pending_ok s \<Longrightarrow> pending_ok (snd (create_will method body s))"
  by (simp add: pending_ok_def create_will_frame)

lemma witness_sign_pending_ok:
  "pending_ok s \<Longrightarrow> pending_ok (snd (witness_sign method pubkey witness s))"
  by (simp add: pending_ok_def witness_sign_frame)

lemma serve_pending_ok:
  assumes "pending_ok s"
  shows "pending_ok (snd (serve r s))"
proof (cases r)
  case (Register m b)
  then show ?thesis using assms by (simp add: register_pubkey_pending_ok)
next
  case (User m k)
  then show ?thesis using assms by (simp add: show_user_def split: option.splits sum.splits)
next
  case (AdminList m)
  then show ?thesis using assms by (simp add: list_need_approve_def split: sum.splits)
next
  case (AdminApprove m k)
  then show ?thesis using assms by (simp add: approve_public_key_pending_ok)
next
  case (WillCreate m b)
  then show ?thesis using assms by (simp add: create_will_pending_ok)
next
  case (Will m k)
  then show ?thesis using assms by (simp add: show_will_def split: option.splits sum.splits)
next
  case (WillList m k)
  then show ?thesis using assms by (simp add: show_will_list_def Let_def split: option.splits sum.splits)
next
  case (WillWitnessSign m k w)
  then show ?thesis using assms by (simp add: witness_sign_pending_ok)
qed

lemma run_pending_ok: "pending_ok s \<Longrightarrow> pending_ok (run rs s)"
  by (induction rs arbitrary: s) (simp_all add: serve_pending_ok)

lemma no_duplicates_distinct: "no_duplicates xs \<Longrightarrow> distinct xs"
  by (simp add: no_duplicates_def distinct_map)

lemma distinct_count_list: "distinct xs \<Longrightarrow> count_list xs x \<le> 1"
  by (induction xs) (auto simp add: count_list_0_iff)

text \<open>
  Claim C5. Starting from a ledger whose pending list is absent or empty, after any sequence
  of requests (to \<^verbatim>\<open>register_pubkey\<close>, \<^verbatim>\<open>approve_public_key\<close> or any other route, completed
  or left by an exception) the list stored under \<^verbatim>\<open>KEY_NEED_REVIEW\<close> has no two equal
  entries: every value occurs in it at most once. Registering the same key twice is one
  such sequence.
\<close>

theorem pending_list_no_duplicates:
  assumes "s KEY_NEED_REVIEW = None \<or> s KEY_NEED_REVIEW = Some (JArr [])"
  shows "pending_ok (run rs s)
         \<and> (\<forall>xs. run rs s KEY_NEED_REVIEW = Some (JArr xs)
                \<longrightarrow> distinct xs \<and> (\<forall>x. count_list xs x \<le> 1))"
proof -
  have "pending_ok s"
    using assms by (auto simp add: pending_ok_def no_duplicates_def)
  then have ok: "pending_ok (run rs s)"
    by (rule run_pending_ok)
  have "distinct xs \<and> (\<forall>x. count_list xs x \<le> 1)"
    if "run rs s KEY_NEED_REVIEW = Some (JArr xs)" for xs
  proof -
    have "no_duplicates xs"
      using ok that by (simp add: pending_ok_def)
    then have d: "distinct xs"
      by (rule no_duplicates_distinct)
    then have "\<forall>x. count_list xs x \<le> 1"
      by (intro allI distinct_count_list)
    with d show ?thesis
      by (rule conjI)
  qed
  with ok show ?thesis by blast
qed

theorem pending_list_no_duplicates_witness:
  "(Map.empty KEY_NEED_REVIEW = None \<or> Map.empty KEY_NEED_REVIEW = Some (JArr []))
   \<and> run [Register ''POST'' alice_profile, Register ''POST'' alice_profile] Map.empty
         KEY_NEED_REVIEW = Some (JArr [JStr ''alice''])
   \<and> pending_ok (run [Register ''POST'' alice_profile, Register ''POST'' alice_profile] Map.empty)
   \<and> distinct [JStr ''alice'']
   \<and> (\<forall>x. count_list [JStr ''alice''] x \<le> 1)"
proof -
  have a: "Map.empty KEY_NEED_REVIEW = None \<or> Map.empty KEY_NEED_REVIEW = Some (JArr [])"
    by simp
  have b: "run [Register ''POST'' alice_profile, Register ''POST'' alice_profile] Map.empty
             KEY_NEED_REVIEW = Some (JArr [JStr ''alice''])"
    by code_simp
  from a b pending_list_no_duplicates [OF a,
      of "[Register ''POST'' alice_profile, Register ''POST'' alice_profile]"]
  show ?thesis by blast
qed

lemma remove_first_absent:
  "no_duplicates xs \<Longrightarrow> y \<in> set (remove_first x xs) \<Longrightarrow> \<not> py_eq y x"
proof (induction xs)
  case Nil
  then show ?case by simp
next
  case (Cons z zs)
  show ?case
  proof (cases "py_eq z x")
    case True
    then have "y \<in> set zs" using Cons.prems by simp
    then have "norm y \<in> norm ` set zs" by simp
    moreover have "norm z \<notin> norm ` set zs" using Cons.prems(1) by (simp add: no_duplicates_def)
    ultimately have "norm y \<noteq> norm z" by metis
    then show ?thesis using True by (simp add: py_eq_def)
  next
    case False
    then show ?thesis
      using Cons by (auto simp add: no_duplicates_def)
  qed
qed

lemma drop_pending_not_list:
  assumes "\<not> is_list pl0" and "drop_pending x pl0 = Inr pl"
  shows "pl = pl0 \<and> py_in x pl0 = Inr False"
proof (cases "py_in x pl0")
  case (Inl e)
  then show ?thesis
    using assms(2) by (simp add: drop_pending_def)
next
  case (Inr present)
  have "py_remove pl0 x = Inl AttributeError"
    using assms(1) by (cases pl0) simp_all
  then show ?thesis
    using assms(2) Inr by (cases present) (simp_all add: drop_pending_def)
qed

lemma drop_pending_absent:
  assumes "list_ok pl0" and "drop_pending (JStr k) pl0 = Inr pl"
  shows "py_in (JStr k) pl = Inr False"
proof (cases pl0)
  case (JArr xs)
  show ?thesis
  proof (cases "JStr k \<in> set xs")
    case True
    then have pl: "pl = JArr (remove_first (JStr k) xs)"
      using assms(2) JArr by (auto simp add: drop_pending_def)
    have "JStr k \<notin> set (remove_first (JStr k) xs)"
      using remove_first_absent [of xs "JStr k" "JStr k"] assms(1) JArr by auto
    then show ?thesis by (simp add: pl)
  next
    case False
    then show ?thesis
      using assms(2) JArr by (auto simp add: drop_pending_def)
  qed
qed (use drop_pending_not_list [OF _ assms(2)] in \<open>simp_all\<close>)

lemma approve_public_key_okD:
  assumes "approve_public_key ''GET'' (Some k) s = (Inr resp, s')"
  shows "\<exists>b pl0 pl. py_getitem (JObj b) ''status'' = Inr (JStr ''approved'')
           \<and> get_value (client_set s k (JObj b)) KEY_NEED_REVIEW = Inr pl0
           \<and> drop_pending (JStr k) pl0 = Inr pl
           \<and> s' = client_set (client_set s k (JObj b)) KEY_NEED_REVIEW pl"
proof -
  from assms obtain body0 body pl0 pl where
    "get_value s k = Inr body0"
    and set: "py_setitem body0 ''status'' (JStr ''approved'') = Inr body"
    and 1: "get_value (client_set s k body) KEY_NEED_REVIEW = Inr pl0"
    and 2: "drop_pending (JStr k) pl0 = Inr pl"
    and 3: "s' = client_set (client_set s k body) KEY_NEED_REVIEW pl"
    by (auto simp add: approve_public_key_def Let_def split: sum.splits)
  from set obtain b0 where "body0 = JObj b0"
    and body: "body = JObj (AList.update ''status'' (JStr ''approved'') b0)"
    by (cases body0) auto
  have "py_getitem body ''status'' = Inr (JStr ''approved'')"
    by (simp add: body update_conv')
  with 1 2 3 body show ?thesis by blast
qed

text \<open>
  Claim C6. In every state that the requests reach from a ledger whose pending list is absent
  or empty, once \<^verbatim>\<open>approve_public_key\<close> completes for the key \<open>k\<close>, \<^verbatim>\<open>show_user\<close> returns
  for \<open>k\<close> a record with \<^verbatim>\<open>status = 'approved'\<close>, and \<open>k\<close> is not in the value stored under
  \<^verbatim>\<open>KEY_NEED_REVIEW\<close>.
\<close>

theorem approve_marks_approved_and_dequeues:
  assumes start: "s0 KEY_NEED_REVIEW = None \<or> s0 KEY_NEED_REVIEW = Some (JArr [])"
      and ok: "approve_public_key ''GET'' (Some k) (run rs s0) = (Inr resp, s')"
  shows "(\<exists>record. show_user ''GET'' (Some k) s' = (Inr (200, Some record), s')
                     \<and> py_getitem record ''status'' = Inr (JStr ''approved''))
         \<and> (\<exists>pending. get_value s' KEY_NEED_REVIEW = Inr pending
                     \<and> py_in (JStr k) pending = Inr False)"
proof -
  let ?s = "run rs s0"
  have "pending_ok s0"
    using start by (auto simp add: pending_ok_def no_duplicates_def)
  then have inv: "pending_ok ?s"
    by (rule run_pending_ok)
  from approve_public_key_okD [OF ok] obtain b pl0 pl where
    st: "py_getitem (JObj b) ''status'' = Inr (JStr ''approved'')"
    and get: "get_value (client_set ?s k (JObj b)) KEY_NEED_REVIEW = Inr pl0"
    and drop: "drop_pending (JStr k) pl0 = Inr pl"
    and s': "s' = client_set (client_set ?s k (JObj b)) KEY_NEED_REVIEW pl"
    by blast
  have "pending_ok (client_set ?s k (JObj b))"
    using inv by (simp add: pending_ok_set_ok)
  then have "list_ok pl0"
    using get by (rule pending_ok_get)
  then have absent: "py_in (JStr k) pl = Inr False"
    using drop by (rule drop_pending_absent)
  have pend: "get_value s' KEY_NEED_REVIEW = Inr pl"
    by (simp add: s' get_value_def client_show_def client_set_def)
  have rec: "s' k = Some (JObj b)"
  proof (cases "k = KEY_NEED_REVIEW")
    case True
    then have "pl0 = JObj b"
      using get by (simp add: get_value_def client_show_def client_set_def)
    then have "pl = JObj b"
      using drop_pending_not_list [OF _ drop] by simp
    then show ?thesis
      by (simp add: s' client_set_def)
  next
    case False
    then show ?thesis
      by (simp add: s' client_set_def)
  qed
  have "show_user ''GET'' (Some k) s' = (Inr (200, Some (JObj b)), s')"
    using rec by (simp add: show_user_def get_value_def client_show_def wrap_response_def)
  with st pend absent show ?thesis by blast
qed

theorem approve_marks_approved_and_dequeues_witness:
  "(Map.empty KEY_NEED_REVIEW = None \<or> Map.empty KEY_NEED_REVIEW = Some (JArr []))
   \<and> fst (approve_public_key ''GET'' (Some ''alice'')
            (run [Register ''POST'' alice_profile] Map.empty))
       = Inr (200, Some (JObj [(''public_key'', JStr ''alice''), (''name'', JStr ''Alice''),
                                (''status'', JStr ''approved'')]))
   \<and> (\<exists>record. show_user ''GET'' (Some ''alice'')
                   (snd (approve_public_key ''GET'' (Some ''alice'')
                          (run [Register ''POST'' alice_profile] Map.empty)))
                 = (Inr (200, Some record),
                    snd (approve_public_key ''GET'' (Some ''alice'')
                          (run [Register ''POST'' alice_profile] Map.empty)))
               \<and> py_getitem record ''status'' = Inr (JStr ''approved''))
   \<and> (\<exists>pending. get_value (snd (approve_public_key ''GET'' (Some ''alice'')
                                   (run [Register ''POST'' alice_profile] Map.empty)))
                     KEY_NEED_REVIEW = Inr pending
               \<and> py_in (JStr ''alice'') pending = Inr False)"
proof -
  let ?s = "run [Register ''POST'' alice_profile] Map.empty"
  have a: "Map.empty KEY_NEED_REVIEW = None \<or> Map.empty KEY_NEED_REVIEW = Some (JArr [])"
    by simp
  have b: "fst (approve_public_key ''GET'' (Some ''alice'') ?s)
       = Inr (200, Some (JObj [(''public_key'', JStr ''alice''), (''name'', JStr ''Alice''),
                                (''status'', JStr ''approved'')]))"
    by code_simp
  then have c: "approve_public_key ''GET'' (Some ''alice'') ?s
       = (Inr (200, Some (JObj [(''public_key'', JStr ''alice''), (''name'', JStr ''Alice''),
                                (''status'', JStr ''approved'')])),
          snd (approve_public_key ''GET'' (Some ''alice'') ?s))"
    by (simp add: prod_eq_iff)
  from a b approve_marks_approved_and_dequeues [OF a c] show ?thesis
    by blast
qed

text \<open>
  The loop of \<^verbatim>\<open>show_will_list\<close> leaves out an entry that cannot be resolved and goes on.
\<close>

lemma show_will_list_skips_dangling_entry:
  "fst (show_will_list ''GET'' (Some ''bob'')
         (Map.empty (''WILL_LIST_bob'' \<mapsto> JArr [JStr ''alice'', JStr ''carol''],
                     ''WILL_carol'' \<mapsto> JObj [(''public_key'', JStr ''carol'')],
                     ''carol'' \<mapsto> JObj [(''public_key'', JStr ''carol'')])))
   = Inr (200, Some (JArr [JObj [(''public_key'', JStr ''carol''),
                                  (''testator'', JObj [(''public_key'', JStr ''carol'')])]]))"
  by code_simp

text \<open>
  Claim C8 (\<^verbatim>\<open>list_need_approve\<close> skips a listed key that has no record) fails on the code:
  the loop has no \<^verbatim>\<open>try\<close>, so the failed lookup of alice ends the request and bob's
  record is not returned.
\<close>

theorem list_need_approve_aborts_on_dangling_entry:
  "fst (list_need_approve ''GET''
         (Map.empty (''KEY_NEED_REVIEW'' \<mapsto> JArr [JStr ''alice'', JStr ''bob''],
                     ''bob'' \<mapsto> JObj [(''public_key'', JStr ''bob''),
                                          (''status'', JStr ''need_review'')])))
   = Inl IntkeyClientException"
  by code_simp


end
